theory Spec2Isabelle
  imports Complex_Main "HOL-Library.Log_Nat" "HOL-Library.Word"
begin

section \<open>Python values used by app\_transform.py\<close>

subsection \<open>Floats\<close>

text \<open>
  A Python float is an IEEE-754 binary64 number.  Every finite one is a rational, so a
  float is modelled by the rational it denotes, and each float operation is the exact
  operation followed by \<open>fl\<close>, rounding to the nearest binary64 number, ties to even.
  \<open>binade x\<close> is the exponent \<open>e\<close> with \<open>2^e \<le> x < 2^(e+1)\<close>; the spacing of
  the floats there is \<open>2^(e-52)\<close>, and \<open>2^(-1074)\<close> below the normal range.
  Overflow to infinity is not modelled: the magnitudes this program computes are
  quotients and products of array dimensions and the constants below.
\<close>

definition round_half_even :: "rat \<Rightarrow> int" where
  "round_half_even q =
     (let n = \<lfloor>q\<rfloor>; d = q - of_int n
      in if d < 1 / 2 then n else if 1 / 2 < d then n + 1 else if even n then n else n + 1)"

definition binade :: "rat \<Rightarrow> int" where
  "binade x =
     (let (a, b) = quotient_of x; d = bitlen a - bitlen b
      in if 2 powi d \<le> x then d else d - 1)"

definition fl :: "rat \<Rightarrow> rat" where
  "fl x =
     (if x = 0 then 0
      else let u = 2 powi (max (binade \<bar>x\<bar>) (- 1022) - 52)
           in of_int (round_half_even (x / u)) * u)"

text \<open>\<^verbatim>\<open>float(n)\<close> of an integer, and \<^verbatim>\<open>int(x)\<close> of a float (truncation towards zero).\<close>

definition float_of_int :: "int \<Rightarrow> rat" where
  "float_of_int n = fl (of_int n)"

definition py_int :: "rat \<Rightarrow> int" where
  "py_int x = (if 0 \<le> x then \<lfloor>x\<rfloor> else \<lceil>x\<rceil>)"

subsection \<open>Exceptions\<close>

datatype error =
    AttributeError
  | ZeroDivisionError
  | KeyError
  | ValueError
  | CvError
  | ArgumentTypeError

definition lookup :: "'a option \<Rightarrow> error + 'a" where
  "lookup v = (case v of None \<Rightarrow> Inl KeyError | Some x \<Rightarrow> Inr x)"

subsection \<open>Images\<close>

text \<open>
  An image is a numpy array of shape (height, width, 3) of unsigned bytes: its two
  dimensions and the pixel at each row and column.
\<close>

type_synonym pixel = "8 word \<times> 8 word \<times> 8 word"

record image =
  height :: nat
  width :: nat
  pixels :: "nat \<Rightarrow> nat \<Rightarrow> pixel"

text \<open>\<^verbatim>\<open>np.full(shape=(h, w, 3), fill_value=v, dtype=np.uint8)\<close>; a negative dimension raises.\<close>

definition np_full :: "int \<Rightarrow> int \<Rightarrow> 8 word \<Rightarrow> error + image" where
  "np_full h w v =
     (if h < 0 \<or> w < 0 then Inl ValueError
      else Inr \<lparr>height = nat h, width = nat w, pixels = (\<lambda>i j. (v, v, v))\<rparr>)"

text \<open>
  \<^verbatim>\<open>cv2.resize(img, (w, h))\<close>: the library's resampling is a parameter \<open>interp\<close>, giving
  the pixel at each position of the result; the result has the size asked for, and an
  empty source or an empty size is an error of the library.
\<close>

definition cv2_resize ::
  "(image \<Rightarrow> nat \<Rightarrow> nat \<Rightarrow> nat \<Rightarrow> nat \<Rightarrow> pixel) \<Rightarrow> image \<Rightarrow> int \<times> int \<Rightarrow> error + image" where
  "cv2_resize interp img dsize =
     (let (w, h) = dsize
      in if height img = 0 \<or> width img = 0 \<or> w \<le> 0 \<or> h \<le> 0 then Inl CvError
         else Inr \<lparr>height = nat h, width = nat w, pixels = interp img (nat h) (nat w)\<rparr>)"

text \<open>
  The bounds of the slice \<^verbatim>\<open>start:stop\<close> on an axis of length \<open>n\<close>: a negative index
  counts from the end, and both ends are clipped to the axis.
\<close>

definition slice_bounds :: "int \<Rightarrow> int \<Rightarrow> int \<Rightarrow> nat \<times> nat" where
  "slice_bounds n start stop =
     (let norm = (\<lambda>i. if i < 0 then max (i + n) 0 else min i n);
          a = norm start; b = norm stop
      in (nat a, nat (max a b)))"

record pip =
  x1 :: int
  x2 :: int
  y1 :: int
  y2 :: int

text \<open>
  \<^verbatim>\<open>dst[y1:y2, x1:x2] = src\<close>: the source is broadcast to the shape of the slice (each of
  its dimensions equals the slice's or is 1), else ValueError.
\<close>

definition assign_region :: "image \<Rightarrow> pip \<Rightarrow> image \<Rightarrow> error + image" where
  "assign_region dst c src =
     (let (r0, r1) = slice_bounds (int (height dst)) (y1 c) (y2 c);
          (c0, c1) = slice_bounds (int (width dst)) (x1 c) (x2 c)
      in if (height src = r1 - r0 \<or> height src = 1) \<and> (width src = c1 - c0 \<or> width src = 1)
         then Inr (dst\<lparr>pixels :=
                (\<lambda>i j. if r0 \<le> i \<and> i < r1 \<and> c0 \<le> j \<and> j < c1
                       then pixels src (if height src = 1 then 0 else i - r0)
                                       (if width src = 1 then 0 else j - c0)
                       else pixels dst i j)\<rparr>)
         else Inl ValueError)"

section \<open>Module-level variables\<close>

text \<open>The target resolution is height x width, in numpy's order.\<close>

definition ig_defined_res :: "int \<times> int" where
  "ig_defined_res = (1920, 1080)"

definition ig_screen_factor :: rat where
  "ig_screen_factor = 3 / 4"

definition ig_scale_tolerance :: int where
  "ig_scale_tolerance = 2"

text \<open>
  The dictionary \<^verbatim>\<open>img_vars\<close>: one optional entry for each key the program stores;
  a key that holds Python's None is \<open>Some None\<close>.  Reading a missing key is KeyError.
\<close>

record img_vars =
  img_obj :: "image option"
  img_res :: "(int \<times> int) option"
  img_aspect_ratio :: "rat option"
  defined_res :: "(int \<times> int) option"
  screen_factor :: "rat option"
  proposed_res :: "(int \<times> int) option"
  proposed_resize_dir :: "string option"
  scale_tolerance :: "int option"
  proposed_resize_factor :: "int option"
  resize_validity :: "bool option option"
  canvas :: "image option"
  pip_coords :: "pip option"

definition img_vars_empty :: img_vars where
  "img_vars_empty =
     \<lparr>img_obj = None, img_res = None, img_aspect_ratio = None, defined_res = None,
      screen_factor = None, proposed_res = None, proposed_resize_dir = None,
      scale_tolerance = None, proposed_resize_factor = None, resize_validity = None,
      canvas = None, pip_coords = None\<rparr>"

section \<open>Application functions\<close>

subsection \<open>resize\_type\<close>

text \<open>
  \<open>imread\<close> is the file system seen through \<^verbatim>\<open>cv2.imread\<close>: None for a path that is
  not a decodable image, on which \<^verbatim>\<open>.shape\<close> raises AttributeError.
  \<open>propose\<close> is the block of \<^verbatim>\<open>resize_type\<close> that proposes the resized resolution
  (height, width): the width scaled first, and the height scaled instead when the
  height of the first proposal does not fit.
\<close>

definition propose :: "int \<times> int \<Rightarrow> rat \<Rightarrow> rat \<Rightarrow> int \<times> int" where
  "propose dres sf ratio =
     (let proposed_width = py_int (fl (sf * float_of_int (snd dres)));
          proposed_height = py_int (fl (float_of_int proposed_width / ratio))
      in if proposed_height \<le> fst dres then (proposed_height, proposed_width)
         else (let proposed_height = py_int (fl (sf * float_of_int (fst dres)));
                   proposed_width = py_int (fl (float_of_int proposed_height * ratio))
               in (proposed_height, proposed_width)))"

definition resize_type ::
  "(string \<Rightarrow> image option) \<Rightarrow> string \<Rightarrow> int \<times> int \<Rightarrow> rat \<Rightarrow> int \<Rightarrow> img_vars
     \<Rightarrow> error + img_vars" where
  "resize_type imread file_path dres sf tol s =
     (case imread file_path of
        None \<Rightarrow> Inl AttributeError
      | Some img \<Rightarrow>
          let res = (int (height img), int (width img))
          in if float_of_int (fst res) = 0 then Inl ZeroDivisionError
             else
               let ratio = fl (float_of_int (snd res) / float_of_int (fst res))
               in if ratio = 0 then Inl ZeroDivisionError
                  else
                    let pres = propose dres sf ratio;
                        dir = (if snd pres \<le> snd res then ''shrink'' else ''scale'');
                        factor = py_int (fl (float_of_int (snd pres) / float_of_int (snd res)));
                        s1 = s\<lparr>img_obj := Some img, img_res := Some res,
                               img_aspect_ratio := Some ratio, defined_res := Some dres,
                               screen_factor := Some sf, proposed_res := Some pres,
                               proposed_resize_dir := Some dir, scale_tolerance := Some tol,
                               proposed_resize_factor := Some factor\<rparr>
                    in Inr (if dir = ''scale''
                            then (if factor \<le> tol
                                  then s1\<lparr>resize_validity := Some (Some True)\<rparr>
                                  else s1\<lparr>resize_validity := Some (Some False)\<rparr>)
                            else if dir = ''shrink''
                            then s1\<lparr>resize_validity := Some None\<rparr>
                            else s1))"

subsection \<open>add\_pip\_vars\<close>

definition add_pip_vars :: "img_vars \<Rightarrow> error + img_vars" where
  "add_pip_vars s =
     (case lookup (defined_res s) of
        Inl e \<Rightarrow> Inl e
      | Inr (h, w) \<Rightarrow>
          (case np_full h w 128 of
             Inl e \<Rightarrow> Inl e
           | Inr colored_image \<Rightarrow>
               (case lookup (proposed_res s) of
                  Inl e \<Rightarrow> Inl e
                | Inr (ph, pw) \<Rightarrow>
                    let y1' = py_int (fl (float_of_int (h - ph) / 2));
                        x1' = py_int (fl (float_of_int (w - pw) / 2));
                        x2' = x1' + pw;
                        y2' = y1' + ph
                    in Inr (s\<lparr>canvas := Some colored_image,
                              pip_coords := Some \<lparr>x1 = x1', x2 = x2', y1 = y1', y2 = y2'\<rparr>\<rparr>))))"

subsection \<open>Dates: strptime, strftime, valid\_date\<close>

text \<open>
  The value of \<^verbatim>\<open>datetime.strptime(s, "%Y-%m-%d_%H-%M")\<close>: seconds and microseconds are
  zero and are left out.
\<close>

record datetime =
  year :: nat
  month :: nat
  day :: nat
  hour :: nat
  minute :: nat

definition is_digit :: "char \<Rightarrow> bool" where
  "is_digit c = (c \<in> set ''0123456789'')"

definition digit_val :: "char \<Rightarrow> nat" where
  "digit_val c = of_char c - 48"

definition int_of_digits :: "string \<Rightarrow> nat" where
  "int_of_digits ds = foldl (\<lambda>a c. 10 * a + digit_val c) 0 ds"

text \<open>One or two digits, as the directives \<^verbatim>\<open>%m %d %H %M\<close> accept.\<close>

definition digits12 :: "string \<Rightarrow> bool" where
  "digits12 f = ((length f = 1 \<or> length f = 2) \<and> list_all is_digit f)"

text \<open>The text before the first separator \<open>sep\<close>, and the text after it.\<close>

definition field :: "char \<Rightarrow> string \<Rightarrow> (string \<times> string) option" where
  "field sep s =
     (let r = dropWhile (\<lambda>c. c \<noteq> sep) s
      in if r = [] then None else Some (takeWhile (\<lambda>c. c \<noteq> sep) s, tl r))"

definition leap_year :: "nat \<Rightarrow> bool" where
  "leap_year y = (y mod 4 = 0 \<and> (y mod 100 \<noteq> 0 \<or> y mod 400 = 0))"

definition days_in_month :: "nat \<Rightarrow> nat \<Rightarrow> nat" where
  "days_in_month y m =
     (if m = 2 then (if leap_year y then 29 else 28)
      else if m \<in> {4, 6, 9, 11} then 30 else 31)"

text \<open>
  The library compiles the format to the regular expression
  \<^verbatim>\<open>(\d\d\d\d)-(1[0-2]|0[1-9]|[1-9])-(3[0-1]|[1-2]\d|0[1-9]|[1-9]| [1-9])_(2[0-3]|[0-1]\d|\d)-([0-5]\d|\d)\<close>,
  which must match the whole string, and then checks the date.  No field can hold a
  separator, so the fields are the texts between the separators: a year of four digits,
  not 0; a month, a day, an hour and a minute of one or two digits in their ranges, the
  day also a space and a digit; a day that exists in its month.  None is ValueError.
  A character is a code point below 256; the decimal digits among them are 0 to 9.
\<close>

definition strptime :: "string \<Rightarrow> datetime option" where
  "strptime s =
     (case field (CHR ''-'') s of None \<Rightarrow> None | Some (Y, s1) \<Rightarrow>
      case field (CHR ''-'') s1 of None \<Rightarrow> None | Some (m, s2) \<Rightarrow>
      case field (CHR ''_'') s2 of None \<Rightarrow> None | Some (d, s3) \<Rightarrow>
      case field (CHR ''-'') s3 of None \<Rightarrow> None | Some (H, M) \<Rightarrow>
        let d' = (if length d = 2 \<and> hd d = CHR '' '' then tl d else d);
            yv = int_of_digits Y; mv = int_of_digits m; dv = int_of_digits d';
            Hv = int_of_digits H; Mv = int_of_digits M
        in if length Y = 4 \<and> list_all is_digit Y \<and> 1 \<le> yv
              \<and> digits12 m \<and> 1 \<le> mv \<and> mv \<le> 12
              \<and> digits12 d' \<and> 1 \<le> dv \<and> dv \<le> days_in_month yv mv
              \<and> digits12 H \<and> Hv \<le> 23
              \<and> digits12 M \<and> Mv \<le> 59
           then Some \<lparr>year = yv, month = mv, day = dv, hour = Hv, minute = Mv\<rparr>
           else None)"

definition valid_date :: "string \<Rightarrow> error + datetime" where
  "valid_date s = (case strptime s of Some d \<Rightarrow> Inr d | None \<Rightarrow> Inl ArgumentTypeError)"

text \<open>
  \<^verbatim>\<open>str(n)\<close> of a non-negative integer, and the zero-padded fields of strftime: \<^verbatim>\<open>%Y\<close>
  with four digits (as the language documents it; the C library of some platforms
  does not pad a year below 1000), \<^verbatim>\<open>%m %d %H %M\<close> with two.
\<close>

definition digit_char :: "nat \<Rightarrow> char" where
  "digit_char n = char_of (48 + n mod 10)"

fun str_nat :: "nat \<Rightarrow> string" where
  "str_nat n = (if n < 10 then [digit_char n] else str_nat (n div 10) @ [digit_char n])"

declare str_nat.simps [simp del]

definition zero_pad :: "nat \<Rightarrow> string \<Rightarrow> string" where
  "zero_pad k t = replicate (k - length t) (CHR ''0'') @ t"

definition strftime_date :: "datetime \<Rightarrow> string" where
  "strftime_date t =
     zero_pad 4 (str_nat (year t)) @ zero_pad 2 (str_nat (month t)) @ zero_pad 2 (str_nat (day t))"

definition strftime_time :: "datetime \<Rightarrow> string" where
  "strftime_time t = zero_pad 2 (str_nat (hour t)) @ zero_pad 2 (str_nat (minute t))"

subsection \<open>process\_image\<close>

text \<open>
  The world outside the program: what \<^verbatim>\<open>cv2.imread\<close> returns for each path, the
  resampling of \<^verbatim>\<open>cv2.resize\<close>, and \<^verbatim>\<open>os.path.join\<close> of the platform.
\<close>

record env =
  imread :: "string \<Rightarrow> image option"
  interp :: "image \<Rightarrow> nat \<Rightarrow> nat \<Rightarrow> nat \<Rightarrow> nat \<Rightarrow> pixel"
  path_join :: "string \<Rightarrow> string \<Rightarrow> string"

definition file_name :: "datetime \<Rightarrow> nat \<Rightarrow> string" where
  "file_name t i = strftime_date t @ ''_'' @ strftime_time t @ ''_'' @ str_nat i @ ''.jpg''"

text \<open>
  The result is the dictionary and the call of \<^verbatim>\<open>cv2.imwrite\<close>: destination and buffer.
  The canvas is not copied: the paste changes the array that the key \<^verbatim>\<open>canvas\<close> holds.
\<close>

definition process_image ::
  "env \<Rightarrow> img_vars \<Rightarrow> string \<Rightarrow> datetime \<Rightarrow> nat \<Rightarrow> error + img_vars \<times> (string \<times> image)" where
  "process_image ev s output_dir exec_datetime iter =
     (case lookup (img_obj s) of Inl e \<Rightarrow> Inl e | Inr img \<Rightarrow>
      case lookup (proposed_res s) of Inl e \<Rightarrow> Inl e | Inr (ph, pw) \<Rightarrow>
      case cv2_resize (interp ev) img (pw, ph) of Inl e \<Rightarrow> Inl e | Inr resized_img \<Rightarrow>
      case lookup (canvas s) of Inl e \<Rightarrow> Inl e | Inr cnv \<Rightarrow>
      case lookup (pip_coords s) of Inl e \<Rightarrow> Inl e | Inr c \<Rightarrow>
      case assign_region cnv c resized_img of Inl e \<Rightarrow> Inl e | Inr processed_img \<Rightarrow>
        let file_dest = path_join ev output_dir (file_name exec_datetime iter)
        in Inr (s\<lparr>canvas := Some processed_img\<rparr>, (file_dest, processed_img)))"

section \<open>Application main\<close>

text \<open>
  One pass of the loop body on the shared dictionary, and the loop over the paths from
  index \<open>i\<close>.  The state is the dictionary and the files written so far; an exception
  ends the program, and the result keeps the files written before it.
\<close>

definition iteration ::
  "env \<Rightarrow> string \<Rightarrow> datetime \<Rightarrow> nat \<Rightarrow> string \<Rightarrow> img_vars
     \<Rightarrow> error + img_vars \<times> (string \<times> image)" where
  "iteration ev output_dir t i file_path s =
     (case resize_type (imread ev) file_path ig_defined_res ig_screen_factor ig_scale_tolerance s of
        Inl e \<Rightarrow> Inl e
      | Inr resized_img_vars \<Rightarrow>
          (case add_pip_vars resized_img_vars of
             Inl e \<Rightarrow> Inl e
           | Inr pip_img_vars \<Rightarrow> process_image ev pip_img_vars output_dir t i))"

fun main_loop ::
  "env \<Rightarrow> string \<Rightarrow> datetime \<Rightarrow> nat \<Rightarrow> string list \<Rightarrow> img_vars \<times> (string \<times> image) list
     \<Rightarrow> error option \<times> img_vars \<times> (string \<times> image) list" where
  "main_loop ev output_dir t i [] (s, written) = (None, s, written)"
| "main_loop ev output_dir t i (p # ps) (s, written) =
     (case iteration ev output_dir t i p s of
        Inl e \<Rightarrow> (Some e, s, written)
      | Inr (s', f) \<Rightarrow> main_loop ev output_dir t (Suc i) ps (s', written @ [f]))"

text \<open>
  The program on its three positional arguments: the exit status and the files written.
  The parser exits with status 2 when \<^verbatim>\<open>valid_date\<close> raises or no path is given; an
  uncaught exception of the loop exits with status 1.
\<close>

definition main :: "env \<Rightarrow> string \<Rightarrow> string list \<Rightarrow> string \<Rightarrow> nat \<times> (string \<times> image) list" where
  "main ev execution_date meme_absolute_file_paths output_directory =
     (case valid_date execution_date of
        Inl e \<Rightarrow> (2, [])
      | Inr t \<Rightarrow>
          if meme_absolute_file_paths = [] then (2, [])
          else (case main_loop ev output_directory t 0 meme_absolute_file_paths (img_vars_empty, []) of
                  (None, s, written) \<Rightarrow> (0, written)
                | (Some e, s, written) \<Rightarrow> (1, written)))"

section \<open>Reading off a plan\<close>

text \<open>
  A test image of one colour; the planner and the compositor on one decoded image,
  from the empty dictionary; and the geometry of the result: proposed width, proposed
  height, resize direction, top and left offset.
\<close>

definition solid_image :: "nat \<Rightarrow> nat \<Rightarrow> pixel \<Rightarrow> image" where
  "solid_image h w p = \<lparr>height = h, width = w, pixels = (\<lambda>i j. p)\<rparr>"

definition plan :: "int \<times> int \<Rightarrow> image \<Rightarrow> error + img_vars" where
  "plan dres img =
     (case resize_type (\<lambda>p. Some img) [] dres ig_screen_factor ig_scale_tolerance img_vars_empty of
        Inl e \<Rightarrow> Inl e
      | Inr s \<Rightarrow> add_pip_vars s)"

definition geometry :: "error + img_vars \<Rightarrow> (int \<times> int \<times> string \<times> int \<times> int) option" where
  "geometry r =
     (case r of
        Inl e \<Rightarrow> None
      | Inr s \<Rightarrow>
          (case (proposed_res s, proposed_resize_dir s, pip_coords s) of
             (Some (ph, pw), Some d, Some c) \<Rightarrow> Some (pw, ph, d, y1 c, x1 c)
           | _ \<Rightarrow> None))"

text \<open>
  What \<^verbatim>\<open>cv2.imread\<close> returns for a decodable file: an array that is not empty and whose
  numbers of rows and columns are C ints.
\<close>

definition decodable :: "image \<Rightarrow> bool" where
  "decodable img = (0 < height img \<and> height img < 2 ^ 31 \<and> 0 < width img \<and> width img < 2 ^ 31)"

text \<open>
  The proposal in the words of the specification, in exact arithmetic: the aspect ratio
  \<open>r\<close> is natural width / natural height; candidate A has width
  floor (factor * target width) and height floor (width / r); it is kept when its height
  is at most the target height, and otherwise the height is floor (factor * target height)
  and the width floor (height * r).  The result is (height, width).
\<close>

definition spec_propose :: "int \<times> int \<Rightarrow> rat \<Rightarrow> nat \<Rightarrow> nat \<Rightarrow> int \<times> int" where
  "spec_propose target factor natural_width natural_height =
     (let r = (of_nat natural_width / of_nat natural_height :: rat);
          proposed_width = \<lfloor>factor * of_int (snd target)\<rfloor>;
          proposed_height = \<lfloor>of_int proposed_width / r\<rfloor>
      in if proposed_height \<le> fst target then (proposed_height, proposed_width)
         else (let proposed_height = \<lfloor>factor * of_int (fst target)\<rfloor>;
                   proposed_width = \<lfloor>of_int proposed_height * r\<rfloor>
               in (proposed_height, proposed_width)))"

text \<open>The same words with the quotients and the product rounded to floats.\<close>

definition spec_propose_float :: "int \<times> int \<Rightarrow> rat \<Rightarrow> nat \<Rightarrow> nat \<Rightarrow> int \<times> int" where
  "spec_propose_float target factor natural_width natural_height =
     (let r = fl (of_nat natural_width / of_nat natural_height);
          proposed_width = \<lfloor>factor * of_int (snd target)\<rfloor>;
          proposed_height = \<lfloor>fl (of_int proposed_width / r)\<rfloor>
      in if proposed_height \<le> fst target then (proposed_height, proposed_width)
         else (let proposed_height = \<lfloor>factor * of_int (fst target)\<rfloor>;
                   proposed_width = \<lfloor>fl (of_int proposed_height * r)\<rfloor>
               in (proposed_height, proposed_width)))"

text \<open>The proposed resolution (height, width) of a plan.\<close>

definition proposed :: "error + img_vars \<Rightarrow> (int \<times> int) option" where
  "proposed r = (case r of Inl e \<Rightarrow> None | Inr s \<Rightarrow> proposed_res s)"

text \<open>What a pass of the loop body hands to \<^verbatim>\<open>cv2.imwrite\<close>, or the exception.\<close>

definition written_by :: "error + img_vars \<times> (string \<times> image) \<Rightarrow> error + string \<times> image" where
  "written_by r = (case r of Inl e \<Rightarrow> Inl e | Inr (s, f) \<Rightarrow> Inr f)"

text \<open>
  A small world to run the program in: three readable files, nearest-neighbour
  resampling, and the joining of paths with a slash.
\<close>

definition demo_read :: "string \<Rightarrow> image option" where
  "demo_read p =
     (if p = ''a.jpg'' then Some (solid_image 500 500 (10, 20, 30))
      else if p = ''b.jpg'' then Some (solid_image 100 100 (40, 50, 60))
      else if p = ''c.jpg'' then Some (solid_image 1920 1080 (70, 80, 90))
      else None)"

definition nearest :: "image \<Rightarrow> nat \<Rightarrow> nat \<Rightarrow> nat \<Rightarrow> nat \<Rightarrow> pixel" where
  "nearest img h w i j = pixels img (i * height img div h) (j * width img div w)"

definition slash_join :: "string \<Rightarrow> string \<Rightarrow> string" where
  "slash_join a b =
     (if b \<noteq> [] \<and> hd b = CHR ''/'' then b
      else if a = [] \<or> last a = CHR ''/'' then a @ b
      else a @ ''/'' @ b)"

definition demo_env :: env where
  "demo_env = \<lparr>imread = demo_read, interp = nearest, path_join = slash_join\<rparr>"





section \<open>Properties\<close>

subsection \<open>Rounding to the nearest float\<close>

text \<open>
  Rounding keeps the order, and it keeps every number \<open>m * 2^k\<close> with \<open>|m| < 2^53\<close>,
  so in particular the integers and half-integers that the program converts.
\<close>

lemma round_half_even_of_int: "round_half_even (of_int n) = n"
  by (simp add: round_half_even_def)

lemma round_half_even_bounds: "\<lfloor>q\<rfloor> \<le> round_half_even q \<and> round_half_even q \<le> \<lfloor>q\<rfloor> + 1"
  by (simp add: round_half_even_def Let_def)

lemma round_half_even_mono:
  assumes "a \<le> b"
  shows "round_half_even a \<le> round_half_even b"
proof (cases "\<lfloor>a\<rfloor> = \<lfloor>b\<rfloor>")
  case True
  then show ?thesis
    using assms by (auto simp: round_half_even_def Let_def)
next
  case False
  with assms have "\<lfloor>a\<rfloor> + 1 \<le> \<lfloor>b\<rfloor>"
    using floor_mono [of a b] by linarith
  then show ?thesis
    using round_half_even_bounds [of a] round_half_even_bounds [of b] by linarith
qed

lemma bitlen_powi_bounds:
  assumes "0 < a"
  shows "(2::rat) powi (bitlen a - 1) \<le> of_int a" and "of_int a < (2::rat) powi (bitlen a)"
proof -
  from assms have b1: "1 \<le> bitlen a"
    by (auto simp: bitlen_alt_def)
  from bitlen_bounds [OF assms]
  have lo: "2 ^ nat (bitlen a - 1) \<le> a" and hi: "a < 2 ^ nat (bitlen a)"
    by simp_all
  have "(of_int (2 ^ nat (bitlen a - 1)) :: rat) \<le> of_int a"
    using lo by (simp only: of_int_le_iff)
  then show "(2::rat) powi (bitlen a - 1) \<le> of_int a"
    using b1 by (simp add: power_int_def)
  have "(of_int a :: rat) < of_int (2 ^ nat (bitlen a))"
    using hi by (simp only: of_int_less_iff)
  then show "of_int a < (2::rat) powi (bitlen a)"
    using b1 by (simp add: power_int_def)
qed

lemma binade_bounds:
  assumes "0 < x"
  shows "2 powi binade x \<le> x" and "x < 2 powi (binade x + 1)"
proof -
  obtain a b where q: "quotient_of x = (a, b)"
    by (cases "quotient_of x")
  then have b: "0 < b" and x: "x = of_int a / of_int b"
    using quotient_of_denom_pos [OF q] quotient_of_div [OF q] by simp_all
  from assms x b have a: "0 < a"
    by (simp add: zero_less_divide_iff)
  let ?d = "bitlen a - bitlen b"
  have bp: "(0::rat) < of_int b" using b by simp
  have "x < (2::rat) powi (bitlen a) / 2 powi (bitlen b - 1)"
  proof -
    have "x < (2::rat) powi (bitlen a) / of_int b"
      unfolding x using bitlen_powi_bounds(2) [OF a] bp by (simp add: divide_strict_right_mono)
    also have "\<dots> \<le> 2 powi (bitlen a) / 2 powi (bitlen b - 1)"
      using bitlen_powi_bounds(1) [OF b] bp by (intro divide_left_mono) simp_all
    finally show ?thesis .
  qed
  moreover have "(2::rat) powi (?d + 1) = 2 powi (bitlen a) / 2 powi (bitlen b - 1)"
    by (simp add: power_int_diff power_int_add)
  ultimately have hi: "x < 2 powi (?d + 1)"
    by simp
  have "(2::rat) powi (bitlen a - 1) / 2 powi (bitlen b) \<le> x"
  proof -
    have "(2::rat) powi (bitlen a - 1) / 2 powi (bitlen b) \<le> 2 powi (bitlen a - 1) / of_int b"
      using bitlen_powi_bounds(2) [OF b] bp by (intro divide_left_mono) simp_all
    also have "\<dots> \<le> x"
      unfolding x using bitlen_powi_bounds(1) [OF a] bp by (simp add: divide_right_mono)
    finally show ?thesis .
  qed
  moreover have "(2::rat) powi (?d - 1) = 2 powi (bitlen a - 1) / 2 powi (bitlen b)"
    by (simp add: power_int_diff)
  ultimately have lo: "2 powi (?d - 1) \<le> x"
    by simp
  show "2 powi binade x \<le> x"
    using lo by (simp add: binade_def q Let_def)
  show "x < 2 powi (binade x + 1)"
    using hi by (auto simp add: binade_def q Let_def)
qed


lemma binade_ge:
  assumes "0 < x" and "2 powi e \<le> x"
  shows "e \<le> binade x"
proof (rule ccontr)
  assume "\<not> e \<le> binade x"
  then have "binade x + 1 \<le> e" by simp
  then have "(2::rat) powi (binade x + 1) \<le> 2 powi e"
    by (intro power_int_increasing) simp_all
  with binade_bounds(2) [OF assms(1)] assms(2) show False by simp
qed

lemma binade_less:
  assumes "0 < x" and "x < 2 powi e"
  shows "binade x < e"
proof (rule ccontr)
  assume "\<not> binade x < e"
  then have "e \<le> binade x" by simp
  then have "(2::rat) powi e \<le> 2 powi binade x"
    by (intro power_int_increasing) simp_all
  with binade_bounds(1) [OF assms(1)] assms(2) show False by simp
qed

lemma binade_mono:
  assumes "0 < x" and "x \<le> y"
  shows "binade x \<le> binade y"
proof -
  have "2 powi binade x \<le> y"
    using binade_bounds(1) [OF assms(1)] assms(2) by simp
  moreover have "0 < y" using assms by simp
  ultimately show ?thesis by (rule binade_ge [rotated])
qed

lemma fl_nonneg:
  assumes "0 \<le> x"
  shows "0 \<le> fl x"
proof (cases "x = 0")
  case True
  then show ?thesis by (simp add: fl_def)
next
  case False
  define u :: rat where "u = 2 powi (max (binade \<bar>x\<bar>) (- 1022) - 52)"
  have u: "0 < u" by (simp add: u_def)
  have "0 \<le> x / u" using assms u by simp
  then have "0 \<le> \<lfloor>x / u\<rfloor>" by simp
  then have "0 \<le> round_half_even (x / u)"
    using round_half_even_bounds [of "x / u"] by linarith
  then have "0 \<le> of_int (round_half_even (x / u)) * u"
    using u by simp
  then show ?thesis
    using False by (simp add: fl_def u_def Let_def)
qed

lemma fl_exact:
  assumes m: "\<bar>m\<bar> < 2 ^ 53" and k: "- 1074 \<le> k"
  shows "fl (of_int m * 2 powi k) = of_int m * 2 powi k"
proof (cases "m = 0")
  case True
  then show ?thesis by (simp add: fl_def)
next
  case False
  define x :: rat where "x = of_int m * 2 powi k"
  define E where "E = max (binade \<bar>x\<bar>) (- 1022)"
  define u :: rat where "u = 2 powi (E - 52)"
  have x0: "x \<noteq> 0" using False by (simp add: x_def)
  have ax: "\<bar>x\<bar> = of_int \<bar>m\<bar> * 2 powi k"
    by (simp add: x_def abs_mult)
  have Ek: "E - 52 \<le> k"
  proof (cases "binade \<bar>x\<bar> \<le> - 1022")
    case True
    then show ?thesis using k by (simp add: E_def)
  next
    case False
    have "(of_int \<bar>m\<bar> :: rat) < of_int (2 ^ 53)"
      using m by (simp only: of_int_less_iff)
    then have "\<bar>x\<bar> < 2 powi 53 * 2 powi k"
      unfolding ax by (intro mult_strict_right_mono) simp_all
    then have "\<bar>x\<bar> < 2 powi (53 + k)"
      by (simp add: power_int_add)
    then have "binade \<bar>x\<bar> < 53 + k"
      using x0 by (intro binade_less) simp_all
    then show ?thesis using False by (simp add: E_def)
  qed
  define j where "j = nat (k - (E - 52))"
  have "x / u = of_int m * (2 powi k / 2 powi (E - 52))"
    by (simp add: x_def u_def)
  also have "2 powi k / (2::rat) powi (E - 52) = 2 powi (k - (E - 52))"
    by (simp add: power_int_diff)
  also have "\<dots> = 2 ^ j"
    using Ek by (simp add: j_def power_int_def)
  finally have xu: "x / u = of_int (m * 2 ^ j)"
    by simp
  have "of_int (round_half_even (x / u)) * u = (x / u) * u"
    unfolding xu round_half_even_of_int ..
  also have "\<dots> = x"
    by (simp add: u_def)
  finally show ?thesis
    using x0 by (simp add: fl_def Let_def x_def [symmetric] E_def [symmetric] u_def [symmetric])
qed

lemma fl_of_int: "\<bar>n\<bar> < 2 ^ 53 \<Longrightarrow> fl (of_int n) = of_int n"
  using fl_exact [of n 0] by simp

lemma fl_half: "\<bar>n\<bar> < 2 ^ 53 \<Longrightarrow> fl (of_int n / 2) = of_int n / 2"
  using fl_exact [of n "- 1"] by (simp add: power_int_minus field_simps)

lemma fl_mono:
  assumes "0 \<le> x" and "x \<le> y"
  shows "fl x \<le> fl y"
proof (cases "x = 0")
  case True
  then show ?thesis using fl_nonneg [of y] assms by (simp add: fl_def)
next
  case False
  with assms have x: "0 < x" and y: "0 < y" by simp_all
  define ex where "ex = max (binade x) (- 1022)"
  define ey where "ey = max (binade y) (- 1022)"
  define ux :: rat where "ux = 2 powi (ex - 52)"
  define uy :: rat where "uy = 2 powi (ey - 52)"
  have flx: "fl x = of_int (round_half_even (x / ux)) * ux"
    using x by (simp add: fl_def Let_def ux_def ex_def)
  have fly: "fl y = of_int (round_half_even (y / uy)) * uy"
    using y by (simp add: fl_def Let_def uy_def ey_def)
  have ux: "0 < ux" and uy: "0 < uy" by (simp_all add: ux_def uy_def)
  have le: "ex \<le> ey"
    using binade_mono [OF x assms(2)] by (simp add: ex_def ey_def)
  show ?thesis
  proof (cases "ex = ey")
    case True
    then have "ux = uy" by (simp add: ux_def uy_def)
    moreover have "x / uy \<le> y / uy"
      using assms uy by (simp add: divide_right_mono)
    ultimately show ?thesis
      unfolding flx fly using round_half_even_mono [of "x / uy" "y / uy"] uy by simp
  next
    case False
    with le have lt: "ex + 1 \<le> ey" by simp
    then have eyb: "ey = binade y" by (auto simp: ey_def ex_def)
    have "x < 2 powi (binade x + 1)" by (rule binade_bounds(2) [OF x])
    also have "\<dots> \<le> 2 powi (ex + 1)"
      by (intro power_int_increasing) (simp_all add: ex_def)
    finally have xlt: "x < 2 powi (ex + 1)" .
    have "x / ux \<le> 2 powi (ex + 1) / ux"
      using xlt ux by (simp add: divide_right_mono)
    also have "2 powi (ex + 1) / ux = of_int (2 ^ 53)"
      by (simp add: ux_def power_int_diff power_int_add)
    finally have "round_half_even (x / ux) \<le> 2 ^ 53"
      using round_half_even_mono [of "x / ux" "of_int (2 ^ 53)"]
      by (simp only: round_half_even_of_int)
    then have "(of_int (round_half_even (x / ux)) :: rat) \<le> of_int (2 ^ 53)"
      by (simp only: of_int_le_iff)
    then have "fl x \<le> of_int (2 ^ 53) * ux"
      unfolding flx using ux by (intro mult_right_mono) simp_all
    also have "of_int (2 ^ 53) * ux = 2 powi (ex + 1)"
      by (simp add: ux_def power_int_diff power_int_add)
    also have "\<dots> \<le> 2 powi ey"
      using lt by (intro power_int_increasing) simp_all
    finally have A: "fl x \<le> 2 powi ey" .
    have "2 powi ey \<le> y"
      unfolding eyb by (rule binade_bounds(1) [OF y])
    then have "2 powi ey / uy \<le> y / uy"
      using uy by (simp add: divide_right_mono)
    moreover have "2 powi ey / uy = of_int (2 ^ 52)"
      by (simp add: uy_def power_int_diff)
    ultimately have "2 ^ 52 \<le> round_half_even (y / uy)"
      using round_half_even_mono [of "of_int (2 ^ 52)" "y / uy"]
      by (simp only: round_half_even_of_int)
    then have "(of_int (2 ^ 52) :: rat) \<le> of_int (round_half_even (y / uy))"
      by (simp only: of_int_le_iff)
    then have "of_int (2 ^ 52) * uy \<le> fl y"
      unfolding fly using uy by (intro mult_right_mono) simp_all
    moreover have "of_int (2 ^ 52) * uy = 2 powi ey"
      by (simp add: uy_def power_int_diff)
    ultimately have B: "2 powi ey \<le> fl y" by simp
    from A B show ?thesis by simp
  qed
qed

subsection \<open>The arithmetic of the planner\<close>

text \<open>
  With the configured constants the first proposal has width 810 and the second has
  height 1440; both proposals fit the target; the resize factor and the halved
  margins are the exact integer quotients.
\<close>

lemma float_of_int_exact: "\<bar>n\<bar> < 2 ^ 53 \<Longrightarrow> float_of_int n = of_int n"
  by (simp add: float_of_int_def fl_of_int)

lemma float_of_int_ge:
  assumes "0 \<le> c" and "c \<le> n" and "c < 2 ^ 53"
  shows "of_int c \<le> float_of_int n"
proof -
  have "fl (of_int c) \<le> fl (of_int n)"
    using assms by (intro fl_mono) simp_all
  then show ?thesis
    using assms by (simp add: float_of_int_def fl_of_int)
qed

lemma py_int_nonneg: "0 \<le> x \<Longrightarrow> py_int x = \<lfloor>x\<rfloor>"
  by (simp add: py_int_def)

lemma fl_le_exact:
  assumes "0 \<le> x" and "x \<le> of_int m * 2 powi k" and "\<bar>m\<bar> < 2 ^ 53" and "- 1074 \<le> k"
  shows "fl x \<le> of_int m * 2 powi k"
  using fl_mono [OF assms(1,2)] fl_exact [OF assms(3,4)] by simp

lemma fl_ge_exact:
  assumes "0 \<le> of_int m * (2::rat) powi k" and "of_int m * 2 powi k \<le> x" and "\<bar>m\<bar> < 2 ^ 53" and "- 1074 \<le> k"
  shows "of_int m * 2 powi k \<le> fl x"
  using fl_mono [OF assms(1,2)] fl_exact [OF assms(3,4)] by simp

lemma fl_le_int: "0 \<le> x \<Longrightarrow> x \<le> of_int m \<Longrightarrow> \<bar>m\<bar> < 2 ^ 53 \<Longrightarrow> fl x \<le> of_int m"
  using fl_le_exact [of x m 0] by simp

lemma fl_ge_int: "0 \<le> m \<Longrightarrow> of_int m \<le> x \<Longrightarrow> m < 2 ^ 53 \<Longrightarrow> of_int m \<le> fl x"
  using fl_ge_exact [of m 0 x] by simp

lemma width_first: "py_int (fl (ig_screen_factor * 1080)) = 810"
  by code_simp

lemma height_first: "py_int (fl (ig_screen_factor * 1920)) = 1440"
  by code_simp

lemma propose_configured:
  "propose ig_defined_res ig_screen_factor r =
     (if py_int (fl (810 / r)) \<le> 1920 then (py_int (fl (810 / r)), 810)
      else (1440, py_int (fl (1440 * r))))"
  by (simp add: propose_def ig_defined_res_def width_first height_first Let_def float_of_int_exact)

lemma propose_fits:
  assumes r: "0 < r" and p: "propose ig_defined_res ig_screen_factor r = (ph, pw)"
  shows "0 \<le> ph \<and> ph \<le> 1920 \<and> 0 \<le> pw \<and> pw \<le> 1080"
proof (cases "py_int (fl (810 / r)) \<le> 1920")
  case True
  with p have ph: "ph = py_int (fl (810 / r))" and pw: "pw = 810"
    by (simp_all add: propose_configured)
  have "0 \<le> fl (810 / r)" using r by (intro fl_nonneg) simp
  then have "0 \<le> ph" by (simp add: ph py_int_nonneg)
  with True ph pw show ?thesis by simp
next
  case False
  with p have ph: "ph = 1440" and pw: "pw = py_int (fl (1440 * r))"
    by (simp_all add: propose_configured)
  have nn: "0 \<le> fl (810 / r)" using r by (intro fl_nonneg) simp
  have big: "1920 < fl (810 / r)"
  proof (rule ccontr)
    assume "\<not> 1920 < fl (810 / r)"
    then have "\<lfloor>fl (810 / r)\<rfloor> \<le> 1920" by (simp add: floor_le_iff)
    with False nn show False by (simp add: py_int_nonneg)
  qed
  have rlt: "r < 27 / 64"
  proof (rule ccontr)
    assume "\<not> r < 27 / 64"
    then have "810 / r \<le> of_int 1920" using r by (simp add: field_simps)
    then have "fl (810 / r) \<le> of_int 1920"
      using r by (intro fl_le_int) simp_all
    with big show False by simp
  qed
  have "1440 * r \<le> of_int 1215 * 2 powi (- 1)"
    using rlt by (simp add: power_int_minus)
  then have "fl (1440 * r) \<le> of_int 1215 * 2 powi (- 1)"
    using r by (intro fl_le_exact) simp_all
  then have "fl (1440 * r) < 608" by (simp add: power_int_minus)
  then have "\<lfloor>fl (1440 * r)\<rfloor> < 608" by (simp add: floor_less_iff)
  moreover have "0 \<le> fl (1440 * r)" using r by (intro fl_nonneg) simp
  ultimately show ?thesis by (simp add: ph pw py_int_nonneg)
qed


lemma floor_fl_between:
  assumes lo: "of_int n \<le> x" and hi: "x \<le> of_int n + 2047 / 2048" and n: "0 \<le> n" "n \<le> 1080"
  shows "py_int (fl x) = n"
proof -
  have x0: "0 \<le> x" using lo n by (meson of_int_0_le_iff order_trans)
  have a: "of_int n \<le> fl x"
    using lo n by (intro fl_ge_int) simp_all
  have "x \<le> of_int (n * 2048 + 2047) * 2 powi (- 11)"
    using hi by (simp add: power_int_minus field_simps)
  then have "fl x \<le> of_int (n * 2048 + 2047) * 2 powi (- 11)"
    using x0 n by (intro fl_le_exact) simp_all
  then have b: "fl x < of_int n + 1"
    by (simp add: power_int_minus field_simps)
  have "0 \<le> fl x" using x0 by (rule fl_nonneg)
  moreover have "\<lfloor>fl x\<rfloor> = n" using a b by (simp add: floor_unique)
  ultimately show ?thesis by (simp add: py_int_nonneg)
qed

lemma factor_exact:
  assumes pw: "0 \<le> pw" "pw \<le> 1080" and w: "0 < w"
  shows "py_int (fl (float_of_int pw / float_of_int w)) = pw div w"
proof (cases "w \<le> 1080")
  case True
  define n where "n = pw div w"
  have fw: "float_of_int w = of_int w" using True w by (intro float_of_int_exact) simp
  have fp: "float_of_int pw = of_int pw" using pw by (intro float_of_int_exact) simp
  have wr: "(0::rat) < of_int w" using w by simp
  have n0: "0 \<le> n" using pw w by (simp add: n_def pos_imp_zdiv_nonneg_iff)
  have dm: "pw = n * w + pw mod w" by (simp add: n_def)
  have m0: "0 \<le> pw mod w" and m1: "pw mod w \<le> w - 1"
    using w by simp_all
  have n1: "n \<le> 1080"
  proof -
    have "n * 1 \<le> n * w" using n0 w by (intro mult_left_mono) simp_all
    with dm m0 pw show ?thesis by linarith
  qed
  have "(of_int pw :: rat) = of_int n * of_int w + of_int (pw mod w)"
    by (subst dm) (simp only: of_int_add of_int_mult)
  then have x: "(of_int pw :: rat) / of_int w = of_int n + of_int (pw mod w) / of_int w"
    using wr by (simp add: field_simps)
  have lo: "of_int n \<le> (of_int pw :: rat) / of_int w"
    unfolding x using m0 wr by simp
  have "(of_int (pw mod w) :: rat) \<le> of_int (w - 1)"
    using m1 by (simp only: of_int_le_iff)
  then have "(of_int (pw mod w) :: rat) / of_int w \<le> of_int (w - 1) / of_int w"
    using wr by (simp add: divide_right_mono)
  also have "(of_int (w - 1) :: rat) / of_int w \<le> 2047 / 2048"
  proof -
    have "(of_int w :: rat) \<le> 2048" using True by simp
    then show ?thesis using wr by (simp add: field_simps)
  qed
  finally have hi: "(of_int pw :: rat) / of_int w \<le> of_int n + 2047 / 2048"
    unfolding x by simp
  show ?thesis
    unfolding fw fp n_def [symmetric] using lo hi n0 n1 by (rule floor_fl_between)
next
  case False
  then have wbig: "1081 \<le> w" by simp
  have fp: "float_of_int pw = of_int pw" using pw by (intro float_of_int_exact) simp
  have fwge: "(of_int 1081 :: rat) \<le> float_of_int w"
    using wbig by (intro float_of_int_ge) simp_all
  then have fwpos: "0 < float_of_int w" by simp
  have lo: "of_int 0 \<le> of_int pw / float_of_int w"
    using pw fwpos by simp
  have "(of_int pw :: rat) \<le> 1080" using pw by simp
  then have "of_int pw / float_of_int w \<le> 1080 / float_of_int w"
    using fwpos by (simp add: divide_right_mono)
  also have "\<dots> \<le> 1080 / 1081"
    using fwge by (simp add: field_simps)
  finally have hi: "of_int pw / float_of_int w \<le> of_int 0 + 2047 / 2048"
    by simp
  have "py_int (fl (of_int pw / float_of_int w)) = 0"
    using lo hi by (rule floor_fl_between) simp_all
  moreover have "pw div w = 0" using pw False by (simp add: div_pos_pos_trivial)
  ultimately show ?thesis by (simp add: fp)
qed

lemma half_exact:
  assumes "0 \<le> d" and "d \<le> 1920"
  shows "py_int (fl (float_of_int d / 2)) = d div 2"
proof -
  have a: "float_of_int d = of_int d" using assms by (intro float_of_int_exact) simp
  have b: "fl (of_int d / 2) = of_int d / 2" using assms by (intro fl_half) simp
  have c: "\<lfloor>(of_int d :: rat) / 2\<rfloor> = d div 2"
    using floor_divide_of_int_eq [of d 2, where ?'a = rat] by simp
  have "(0::rat) \<le> of_int d / 2" using assms by simp
  then have "py_int (of_int d / 2) = d div 2"
    using c by (simp only: py_int_nonneg)
  then show ?thesis by (simp only: a b)
qed

subsection \<open>The planner on a decodable image\<close>

text \<open>
  On a decodable image no division fails, and the dictionary that \<^verbatim>\<open>resize_type\<close>
  returns is the one below: every key it stores is overwritten.
\<close>

lemma aspect_ratio_pos:
  assumes "decodable img"
  shows "float_of_int (int (height img)) = of_nat (height img)"
    and "float_of_int (int (width img)) = of_nat (width img)"
    and "0 < fl (of_nat (width img) / of_nat (height img))"
proof -
  have h: "0 < height img" "height img < 2 ^ 31" and w: "0 < width img" "width img < 2 ^ 31"
    using assms by (simp_all add: decodable_def)
  have "int (height img) < 2 ^ 31" using h(2) by (metis of_nat_less_numeral_power_cancel_iff)
  then have "\<bar>int (height img)\<bar> < 2 ^ 53" by simp
  then show "float_of_int (int (height img)) = of_nat (height img)"
    by (simp add: float_of_int_exact)
  have "int (width img) < 2 ^ 31" using w(2) by (metis of_nat_less_numeral_power_cancel_iff)
  then have "\<bar>int (width img)\<bar> < 2 ^ 53" by simp
  then show "float_of_int (int (width img)) = of_nat (width img)"
    by (simp add: float_of_int_exact)
  have hr: "(of_nat (height img) :: rat) \<le> 2 ^ 31"
    using h(2) by (metis less_imp_le of_nat_le_numeral_power_cancel_iff)
  have hp: "(0::rat) < of_nat (height img)" using h(1) by simp
  have wr: "(1::rat) \<le> of_nat (width img)" using w(1) by simp
  have "(1::rat) / 2 ^ 31 \<le> 1 / of_nat (height img)"
    using hr hp by (simp add: field_simps)
  also have "\<dots> \<le> of_nat (width img) / of_nat (height img)"
    using wr hp by (simp add: divide_right_mono)
  finally have "of_int 1 * 2 powi (- 31) \<le> (of_nat (width img) :: rat) / of_nat (height img)"
    by (simp add: power_int_minus field_simps)
  then have "of_int 1 * 2 powi (- 31) \<le> fl (of_nat (width img) / of_nat (height img))"
    by (intro fl_ge_exact) simp_all
  moreover have "(0::rat) < of_int 1 * 2 powi (- 31)" by simp
  ultimately show "0 < fl (of_nat (width img) / of_nat (height img))" by linarith
qed

lemma resize_type_decodable:
  assumes rd: "rd p = Some img" and d: "decodable img"
  shows "resize_type rd p ig_defined_res ig_screen_factor ig_scale_tolerance s =
    (let r = fl (of_nat (width img) / of_nat (height img));
         pres = propose ig_defined_res ig_screen_factor r;
         w = int (width img);
         factor = snd pres div w
     in Inr (s\<lparr>img_obj := Some img, img_res := Some (int (height img), w),
               img_aspect_ratio := Some r, defined_res := Some ig_defined_res,
               screen_factor := Some ig_screen_factor, proposed_res := Some pres,
               proposed_resize_dir := Some (if snd pres \<le> w then ''shrink'' else ''scale''),
               scale_tolerance := Some ig_scale_tolerance,
               proposed_resize_factor := Some factor,
               resize_validity :=
                 Some (if snd pres \<le> w then None else Some (factor \<le> ig_scale_tolerance))\<rparr>))"
proof -
  define r where "r = fl (of_nat (width img) / of_nat (height img) :: rat)"
  obtain ph pw where pres: "propose ig_defined_res ig_screen_factor r = (ph, pw)"
    by (cases "propose ig_defined_res ig_screen_factor r")
  have r: "0 < r" unfolding r_def by (rule aspect_ratio_pos(3) [OF d])
  have fit: "0 \<le> pw" "pw \<le> 1080"
    using propose_fits [OF r pres] by simp_all
  have w: "0 < int (width img)" using d by (simp add: decodable_def)
  have h: "(of_nat (height img) :: rat) \<noteq> 0" using d by (simp add: decodable_def)
  have f: "py_int (fl (float_of_int pw / float_of_int (int (width img)))) = pw div int (width img)"
    using fit w by (rule factor_exact)
  have f': "py_int (fl (float_of_int pw / of_nat (width img))) = pw div int (width img)"
    using f by (simp only: aspect_ratio_pos(2) [OF d])
  show ?thesis
    using r h pres f'
    by (simp add: resize_type_def rd aspect_ratio_pos(1,2) [OF d] r_def [symmetric] Let_def)
qed

lemma add_pip_vars_fit:
  assumes dr: "defined_res s = Some ig_defined_res" and pr: "proposed_res s = Some (ph, pw)"
    and fit: "0 \<le> ph" "ph \<le> 1920" "0 \<le> pw" "pw \<le> 1080"
  shows "add_pip_vars s =
    Inr (s\<lparr>canvas := Some \<lparr>height = 1920, width = 1080, pixels = (\<lambda>i j. (128, 128, 128))\<rparr>,
           pip_coords := Some \<lparr>x1 = (1080 - pw) div 2, x2 = (1080 - pw) div 2 + pw,
                                y1 = (1920 - ph) div 2, y2 = (1920 - ph) div 2 + ph\<rparr>\<rparr>)"
proof -
  have y: "py_int (fl (float_of_int (1920 - ph) / 2)) = (1920 - ph) div 2"
    using fit by (intro half_exact) simp_all
  have x: "py_int (fl (float_of_int (1080 - pw) / 2)) = (1080 - pw) div 2"
    using fit by (intro half_exact) simp_all
  show ?thesis
    by (simp add: add_pip_vars_def dr pr lookup_def ig_defined_res_def np_full_def x y Let_def)
qed

lemma propose_float:
  assumes r: "0 < fl (of_nat w / of_nat h)"
  shows "propose ig_defined_res ig_screen_factor (fl (of_nat w / of_nat h))
       = spec_propose_float ig_defined_res ig_screen_factor w h"
proof -
  define r where "r = fl (of_nat w / of_nat h :: rat)"
  have r0: "0 < r" using r by (simp add: r_def)
  have a: "0 \<le> fl (810 / r)" using r0 by (intro fl_nonneg) simp
  have b: "0 \<le> fl (1440 * r)" using r0 by (intro fl_nonneg) simp
  have c: "\<lfloor>ig_screen_factor * 1080\<rfloor> = 810" "\<lfloor>ig_screen_factor * 1920\<rfloor> = 1440"
    by (simp_all add: ig_screen_factor_def)
  show ?thesis
    unfolding propose_configured spec_propose_float_def r_def [symmetric]
    using a b by (simp add: Let_def ig_defined_res_def c py_int_nonneg)
qed

lemma plan_decodable:
  assumes rd: "rd p = Some img" and d: "decodable img"
  obtains s' t ph pw where
    "resize_type rd p ig_defined_res ig_screen_factor ig_scale_tolerance s = Inr s'"
    "add_pip_vars s' = Inr t"
    "proposed_res s' = Some (ph, pw)"
    "(ph, pw) = spec_propose_float ig_defined_res ig_screen_factor (width img) (height img)"
    "0 \<le> ph" "ph \<le> 1920" "0 \<le> pw" "pw \<le> 1080"
    "img_aspect_ratio s' = Some (fl (of_nat (width img) / of_nat (height img)))"
    "proposed_resize_factor s' = Some (pw div int (width img))"
    "proposed_resize_dir s' = Some (if pw \<le> int (width img) then ''shrink'' else ''scale'')"
    "resize_validity s' =
       Some (if pw \<le> int (width img) then None
             else Some (pw div int (width img) \<le> ig_scale_tolerance))"
    "pip_coords t = Some \<lparr>x1 = (1080 - pw) div 2, x2 = (1080 - pw) div 2 + pw,
                           y1 = (1920 - ph) div 2, y2 = (1920 - ph) div 2 + ph\<rparr>"
    "canvas t = Some \<lparr>height = 1920, width = 1080, pixels = (\<lambda>i j. (128, 128, 128))\<rparr>"
    "img_obj t = Some img" "proposed_res t = Some (ph, pw)"
proof -
  define r where "r = fl (of_nat (width img) / of_nat (height img) :: rat)"
  have r: "0 < r" unfolding r_def by (rule aspect_ratio_pos(3) [OF d])
  obtain ph pw where pres: "propose ig_defined_res ig_screen_factor r = (ph, pw)"
    by (cases "propose ig_defined_res ig_screen_factor r")
  have fit: "0 \<le> ph" "ph \<le> 1920" "0 \<le> pw" "pw \<le> 1080"
    using propose_fits [OF r pres] by simp_all
  have sp: "(ph, pw) = spec_propose_float ig_defined_res ig_screen_factor (width img) (height img)"
    using propose_float [of "width img" "height img"] r pres by (simp add: r_def)
  note rt = resize_type_decodable [of rd p img s, OF rd d, unfolded r_def [symmetric] Let_def pres snd_conv]
  obtain s' where s': "resize_type rd p ig_defined_res ig_screen_factor ig_scale_tolerance s = Inr s'"
    using rt by simp
  have f: "proposed_res s' = Some (ph, pw)" "defined_res s' = Some ig_defined_res"
    "img_aspect_ratio s' = Some r"
    "proposed_resize_factor s' = Some (pw div int (width img))"
    "proposed_resize_dir s' = Some (if pw \<le> int (width img) then ''shrink'' else ''scale'')"
    "resize_validity s' =
       Some (if pw \<le> int (width img) then None
             else Some (pw div int (width img) \<le> ig_scale_tolerance))"
    "img_obj s' = Some img"
    using rt s' by auto
  note ap = add_pip_vars_fit [OF f(2) f(1) fit]
  show ?thesis
    by (rule that [OF s' ap f(1) sp fit f(3) [unfolded r_def] f(4) f(5) f(6)])
       (simp_all add: f)
qed

subsection \<open>The loop body and the loop\<close>

text \<open>
  What a pass writes does not depend on the dictionary it starts from, and it depends
  on the path only through the image read.  Every buffer written has the size of the
  canvas, and the \<open>k\<close>-th file written by the loop is the one a pass at index \<open>k\<close>
  writes from the empty dictionary.
\<close>

lemma resize_type_reads_nothing:
  assumes "rd p = rd' p'"
  shows "map_sum id (\<lambda>s. (img_obj s, defined_res s, proposed_res s)) (resize_type rd p dres sf tol s)
     = map_sum id (\<lambda>s. (img_obj s, defined_res s, proposed_res s)) (resize_type rd' p' dres sf tol s0)"
  using assms by (simp add: resize_type_def Let_def split: option.splits)

lemma add_pip_vars_reads:
  assumes "defined_res a = defined_res b" and "proposed_res a = proposed_res b"
    and "img_obj a = img_obj b"
  shows "map_sum id (\<lambda>s. (img_obj s, proposed_res s, canvas s, pip_coords s)) (add_pip_vars a)
       = map_sum id (\<lambda>s. (img_obj s, proposed_res s, canvas s, pip_coords s)) (add_pip_vars b)"
  using assms
  by (simp add: add_pip_vars_def lookup_def Let_def split: option.splits sum.splits prod.splits)

lemma process_image_reads:
  assumes "img_obj a = img_obj b" and "proposed_res a = proposed_res b"
    and "canvas a = canvas b" and "pip_coords a = pip_coords b"
  shows "written_by (process_image ev a out T i) = written_by (process_image ev b out T i)"
  using assms
  by (simp add: process_image_def written_by_def lookup_def Let_def
      split: option.splits sum.splits prod.splits)

lemma iteration_reads_nothing:
  assumes "imread ev p = imread ev p'"
  shows "written_by (iteration ev out T i p s) = written_by (iteration ev out T i p' s0)"
proof -
  let ?R = "\<lambda>p s. resize_type (imread ev) p ig_defined_res ig_screen_factor ig_scale_tolerance s"
  have r: "map_sum id (\<lambda>s. (img_obj s, defined_res s, proposed_res s)) (?R p s)
     = map_sum id (\<lambda>s. (img_obj s, defined_res s, proposed_res s)) (?R p' s0)"
    using assms by (rule resize_type_reads_nothing)
  show ?thesis
  proof (cases "?R p s")
    case (Inl e)
    with r have "?R p' s0 = Inl e" by (cases "?R p' s0") simp_all
    with Inl show ?thesis by (simp add: iteration_def written_by_def)
  next
    case (Inr a)
    with r obtain b where b: "?R p' s0 = Inr b"
      and ab: "img_obj a = img_obj b" "defined_res a = defined_res b" "proposed_res a = proposed_res b"
      by (cases "?R p' s0") simp_all
    note q = add_pip_vars_reads [OF ab(2) ab(3) ab(1)]
    show ?thesis
    proof (cases "add_pip_vars a")
      case (Inl e)
      with q have "add_pip_vars b = Inl e" by (cases "add_pip_vars b") simp_all
      with Inl Inr b show ?thesis by (simp add: iteration_def written_by_def)
    next
      case a': (Inr a')
      with q obtain b' where b': "add_pip_vars b = Inr b'"
        and ab': "img_obj a' = img_obj b'" "proposed_res a' = proposed_res b'"
          "canvas a' = canvas b'" "pip_coords a' = pip_coords b'"
        by (cases "add_pip_vars b") simp_all
      show ?thesis
        using process_image_reads [OF ab', of ev out T i] Inr b a' b'
        by (simp add: iteration_def)
    qed
  qed
qed

lemma assign_region_size:
  "assign_region dst c src = Inr buf \<Longrightarrow> height buf = height dst \<and> width buf = width dst"
  by (auto simp: assign_region_def Let_def split: prod.splits if_splits)

lemma resize_type_defined_res:
  "resize_type rd p dres sf tol s = Inr s' \<Longrightarrow> defined_res s' = Some dres"
  by (auto simp: resize_type_def Let_def split: option.splits if_splits)

lemma add_pip_vars_canvas:
  assumes "add_pip_vars s = Inr t" and "defined_res s = Some (h, w)"
  shows "\<exists>cnv. canvas t = Some cnv \<and> height cnv = nat h \<and> width cnv = nat w"
  using assms
  by (auto simp: add_pip_vars_def lookup_def np_full_def Let_def
      split: option.splits sum.splits prod.splits if_splits)

lemma process_image_output:
  assumes "process_image ev t out T i = Inr (t', f)" and "canvas t = Some cnv"
  shows "fst f = path_join ev out (file_name T i) \<and> height (snd f) = height cnv
     \<and> width (snd f) = width cnv"
  using assms
  by (auto simp: process_image_def lookup_def Let_def dest: assign_region_size
      split: option.splits sum.splits prod.splits)

lemma iteration_output:
  assumes "iteration ev out T i p s = Inr (t, f)"
  shows "fst f = path_join ev out (file_name T i) \<and> height (snd f) = 1920 \<and> width (snd f) = 1080"
proof -
  from assms obtain a b where a: "resize_type (imread ev) p ig_defined_res ig_screen_factor ig_scale_tolerance s = Inr a"
    and b: "add_pip_vars a = Inr b" and c: "process_image ev b out T i = Inr (t, f)"
    by (auto simp: iteration_def split: sum.splits)
  from resize_type_defined_res [OF a] have "defined_res a = Some (1920, 1080)"
    by (simp add: ig_defined_res_def)
  from add_pip_vars_canvas [OF b this] obtain cnv where
    "canvas b = Some cnv" "height cnv = 1920" "width cnv = 1080" by auto
  with process_image_output [OF c, of cnv] show ?thesis by simp
qed

lemma written_by_Inr: "written_by r = Inr f \<Longrightarrow> \<exists>t. r = Inr (t, f)"
  by (auto simp: written_by_def split: sum.splits)

lemma main_loop_written:
  assumes "main_loop ev out T i ps (s, w) = (e, s', w')"
  shows "\<exists>fs. w' = w @ fs \<and> length fs \<le> length ps \<and> (e = None \<longrightarrow> length fs = length ps)
    \<and> (\<forall>k<length fs.
          written_by (iteration ev out T (i + k) (ps ! k) img_vars_empty) = Inr (fs ! k))"
  using assms
proof (induction ps arbitrary: i s w)
  case Nil
  then show ?case by simp
next
  case (Cons p ps)
  show ?case
  proof (cases "iteration ev out T i p s")
    case (Inl err)
    with Cons.prems show ?thesis by auto
  next
    case (Inr r)
    obtain s1 f where r: "r = (s1, f)" by (cases r)
    with Inr Cons.prems have "main_loop ev out T (Suc i) ps (s1, w @ [f]) = (e, s', w')"
      by simp
    from Cons.IH [OF this] obtain fs where fs: "w' = (w @ [f]) @ fs" "length fs \<le> length ps"
      "e = None \<longrightarrow> length fs = length ps"
      "\<forall>k<length fs. written_by (iteration ev out T (Suc i + k) (ps ! k) img_vars_empty) = Inr (fs ! k)"
      by blast
    have f0: "written_by (iteration ev out T i p img_vars_empty) = Inr f"
      using iteration_reads_nothing [of ev p p out T i img_vars_empty s] Inr r
      by (simp add: written_by_def)
    have "\<forall>k<length (f # fs).
          written_by (iteration ev out T (i + k) ((p # ps) ! k) img_vars_empty) = Inr ((f # fs) ! k)"
    proof (intro allI impI)
      fix k assume "k < length (f # fs)"
      then show "written_by (iteration ev out T (i + k) ((p # ps) ! k) img_vars_empty) = Inr ((f # fs) ! k)"
        using f0 fs(4) by (cases k) simp_all
    qed
    with fs(1-3) show ?thesis
      by (intro exI [of _ "f # fs"]) simp
  qed
qed

lemma main_written:
  assumes "valid_date date = Inr T"
  shows "length (snd (main ev date ps out)) \<le> length ps
    \<and> (fst (main ev date ps out) = 0 \<longrightarrow> length (snd (main ev date ps out)) = length ps)
    \<and> (\<forall>k<length (snd (main ev date ps out)).
          written_by (iteration ev out T k (ps ! k) img_vars_empty)
            = Inr (snd (main ev date ps out) ! k))"
proof (cases "ps = []")
  case True
  then show ?thesis using assms by (simp add: main_def)
next
  case False
  obtain e s' w' where m: "main_loop ev out T 0 ps (img_vars_empty, []) = (e, s', w')"
    by (cases "main_loop ev out T 0 ps (img_vars_empty, [])")
  from main_loop_written [OF m] obtain fs where fs: "w' = fs" "length fs \<le> length ps"
    "e = None \<longrightarrow> length fs = length ps"
    "\<forall>k<length fs. written_by (iteration ev out T k (ps ! k) img_vars_empty) = Inr (fs ! k)"
    by auto
  have "snd (main ev date ps out) = fs" "fst (main ev date ps out) = 0 \<longrightarrow> e = None"
    using assms False m fs(1) by (auto simp: main_def split: option.splits)
  with fs show ?thesis by simp
qed

subsection \<open>The writer on an enlarged image\<close>

text \<open>
  An image that is enlarged gets a proposal with positive height and width, so the
  resampling does not fail, and the paste of a proposal that fits the canvas does not
  fail either.
\<close>

lemma enlarge_height_pos:
  assumes d: "decodable img"
    and p: "(ph, pw) = spec_propose_float ig_defined_res ig_screen_factor (width img) (height img)"
    and e: "int (width img) < pw"
  shows "0 < ph \<and> 0 < pw"
proof -
  define r where "r = fl (of_nat (width img) / of_nat (height img) :: rat)"
  have r: "0 < r" unfolding r_def by (rule aspect_ratio_pos(3) [OF d])
  have pr: "propose ig_defined_res ig_screen_factor r = (ph, pw)"
    using propose_float [of "width img" "height img"] r p by (simp add: r_def)
  have pw: "0 < pw" using e by simp
  show ?thesis
  proof (cases "py_int (fl (810 / r)) \<le> 1920")
    case True
    with pr have ph: "ph = py_int (fl (810 / r))" and "pw = 810"
      by (simp_all add: propose_configured)
    with e have w: "width img \<le> 809" by simp
    have h: "(1::rat) \<le> of_nat (height img)" using d by (simp add: decodable_def)
    have "(of_nat (width img) :: rat) / of_nat (height img) \<le> of_nat (width img) / 1"
      using h by (intro divide_left_mono) simp_all
    also have "\<dots> \<le> of_int 809" using w by simp
    finally have "r \<le> of_int 809"
      unfolding r_def using h by (intro fl_le_int) simp_all
    then have "of_int 1 \<le> 810 / r" using r by (simp add: field_simps)
    then have "of_int 1 \<le> fl (810 / r)" by (intro fl_ge_int) simp_all
    then have "1 \<le> \<lfloor>fl (810 / r)\<rfloor>" by (simp add: le_floor_iff)
    moreover have "0 \<le> fl (810 / r)" using r by (intro fl_nonneg) simp
    ultimately show ?thesis using pw by (simp add: ph py_int_nonneg)
  next
    case False
    with pr have "ph = 1440" by (simp add: propose_configured)
    with pw show ?thesis by simp
  qed
qed

lemma assign_region_centered:
  assumes "0 \<le> ph" "ph \<le> 1920" "0 \<le> pw" "pw \<le> 1080"
    and "height rs = nat ph" "width rs = nat pw" and "height cnv = 1920" "width cnv = 1080"
  shows "\<exists>buf. assign_region cnv
           \<lparr>x1 = (1080 - pw) div 2, x2 = (1080 - pw) div 2 + pw,
            y1 = (1920 - ph) div 2, y2 = (1920 - ph) div 2 + ph\<rparr> rs = Inr buf"
proof -
  have a: "0 \<le> (1920 - ph) div 2" "(1920 - ph) div 2 + ph \<le> 1920"
    "0 \<le> (1080 - pw) div 2" "(1080 - pw) div 2 + pw \<le> 1080"
    using assms(1-4) by presburger+
  have y: "slice_bounds 1920 ((1920 - ph) div 2) ((1920 - ph) div 2 + ph)
      = (nat ((1920 - ph) div 2), nat ((1920 - ph) div 2 + ph))"
    using a assms(1) by (simp add: slice_bounds_def Let_def min_def max_def)
  have x: "slice_bounds 1080 ((1080 - pw) div 2) ((1080 - pw) div 2 + pw)
      = (nat ((1080 - pw) div 2), nat ((1080 - pw) div 2 + pw))"
    using a assms(3) by (simp add: slice_bounds_def Let_def min_def max_def)
  have d: "nat ((1920 - ph) div 2 + ph) - nat ((1920 - ph) div 2) = nat ph"
    "nat ((1080 - pw) div 2 + pw) - nat ((1080 - pw) div 2) = nat pw"
    using a assms(1,3) by linarith+
  show ?thesis
    by (simp add: assign_region_def assms(5-8) x y d)
qed

lemma process_image_succeeds:
  assumes "img_obj t = Some img" and "decodable img" and "proposed_res t = Some (ph, pw)"
    and "0 < ph" "ph \<le> 1920" "0 < pw" "pw \<le> 1080"
    and "canvas t = Some cnv" and "height cnv = 1920" "width cnv = 1080"
    and "pip_coords t = Some \<lparr>x1 = (1080 - pw) div 2, x2 = (1080 - pw) div 2 + pw,
            y1 = (1920 - ph) div 2, y2 = (1920 - ph) div 2 + ph\<rparr>"
  shows "\<exists>t' f. process_image ev t out T i = Inr (t', f)"
proof -
  define rs where "rs = \<lparr>height = nat ph, width = nat pw, pixels = interp ev img (nat ph) (nat pw)\<rparr>"
  have rz: "cv2_resize (interp ev) img (pw, ph) = Inr rs"
    using assms(2,4,6) by (simp add: cv2_resize_def decodable_def rs_def)
  have "\<exists>buf. assign_region cnv
           \<lparr>x1 = (1080 - pw) div 2, x2 = (1080 - pw) div 2 + pw,
            y1 = (1920 - ph) div 2, y2 = (1920 - ph) div 2 + ph\<rparr> rs = Inr buf"
    using assms(4-7) by (intro assign_region_centered) (simp_all add: rs_def assms(9,10))
  then obtain buf where "assign_region cnv
           \<lparr>x1 = (1080 - pw) div 2, x2 = (1080 - pw) div 2 + pw,
            y1 = (1920 - ph) div 2, y2 = (1920 - ph) div 2 + ph\<rparr> rs = Inr buf" ..
  then show ?thesis
    by (simp add: process_image_def lookup_def assms(1,3,8,11) rz)
qed

subsection \<open>Parsing a string of the literal pattern\<close>




subsection \<open>C1: the scenario of an image in the canvas's aspect ratio\<close>

text \<open>
  C1 as stated: with the configured constants, an image of 1080 by 1920 gets proposed
  width 1440, proposed height 810, direction shrink, top 135 and left 240.  The
  configured target is 1920 high and 1080 wide, so neither the image 1080 wide and 1920
  high nor the image 1920 wide and 1080 high gets these values.
\<close>

theorem C1_configured_not_1440_by_810:
  "geometry (plan ig_defined_res (solid_image 1920 1080 (0, 0, 0)))
     \<noteq> Some (1440, 810, ''shrink'', 135, 240)
   \<and> geometry (plan ig_defined_res (solid_image 1080 1920 (0, 0, 0)))
     \<noteq> Some (1440, 810, ''shrink'', 135, 240)"
  by code_simp

text \<open>
  C1 amended: with the configured constants (target 1920 high by 1080 wide, factor 0.75)
  an image 1080 wide and 1920 high gets proposed width 810, proposed height 1440,
  direction shrink, top 240 and left 135; the values of the claim are those of a target
  1080 high by 1920 wide on an image 1920 wide and 1080 high.
\<close>

theorem C1_configured_portrait:
  "geometry (plan ig_defined_res (solid_image 1920 1080 px))
     = Some (810, 1440, ''shrink'', 240, 135)
   \<and> geometry (plan (1080, 1920) (solid_image 1080 1920 px))
     = Some (1440, 810, ''shrink'', 135, 240)"
  by code_simp

subsection \<open>C2: the two proposals\<close>

text \<open>
  C2 as stated: with \<open>r\<close> = natural width / natural height, candidate A is
  width = floor (factor * target width) and height = floor (width / r), kept when the
  height is at most the target height, and else height = floor (factor * target height)
  and width = floor (height * r).  The program divides and multiplies floats: for an
  image 9 wide and 11 high the quotient 9 / 11 is rounded up, 810 divided by it is just
  below 990, and the program proposes the height 989 where the stated formula gives 990.
\<close>

theorem C2_exact_arithmetic_differs:
  "proposed (plan ig_defined_res (solid_image 11 9 (0, 0, 0)))
     \<noteq> Some (spec_propose ig_defined_res ig_screen_factor 9 11)
   \<and> proposed (plan ig_defined_res (solid_image 11 9 (0, 0, 0))) = Some (989, 810)
   \<and> spec_propose ig_defined_res ig_screen_factor 9 11 = (990, 810)"
  by code_simp

text \<open>
  C2 amended: for every decodable image the planner returns; the aspect ratio is the
  float nearest to natural width / natural height, and the proposal is the stated one
  with the quotient width / r and the product height * r rounded to the nearest float
  before the floor is taken.
\<close>

theorem C2_planner_rounds_to_float:
  assumes "rd p = Some img" and "decodable img"
  shows "\<exists>s'. resize_type rd p ig_defined_res ig_screen_factor ig_scale_tolerance s = Inr s'
    \<and> img_aspect_ratio s' = Some (fl (of_nat (width img) / of_nat (height img)))
    \<and> proposed_res s' =
        Some (spec_propose_float ig_defined_res ig_screen_factor (width img) (height img))"
  using plan_decodable [of rd p img s, OF assms] by metis

theorem C2_planner_rounds_to_float_witness:
  "decodable (solid_image 11 9 (0, 0, 0))
   \<and> (\<exists>s'. resize_type (\<lambda>p. Some (solid_image 11 9 (0, 0, 0))) [] ig_defined_res ig_screen_factor ig_scale_tolerance img_vars_empty = Inr s'
    \<and> img_aspect_ratio s' = Some (fl (of_nat (width (solid_image 11 9 (0, 0, 0))) / of_nat (height (solid_image 11 9 (0, 0, 0)))))
    \<and> proposed_res s' =
        Some (spec_propose_float ig_defined_res ig_screen_factor (width (solid_image 11 9 (0, 0, 0))) (height (solid_image 11 9 (0, 0, 0)))))"
proof (rule conjI)
  show d: "decodable (solid_image 11 9 (0, 0, 0))"
    by (simp add: decodable_def solid_image_def)
  show "\<exists>s'. resize_type (\<lambda>p. Some (solid_image 11 9 (0, 0, 0))) [] ig_defined_res ig_screen_factor ig_scale_tolerance img_vars_empty = Inr s'
    \<and> img_aspect_ratio s' = Some (fl (of_nat (width (solid_image 11 9 (0, 0, 0))) / of_nat (height (solid_image 11 9 (0, 0, 0)))))
    \<and> proposed_res s' =
        Some (spec_propose_float ig_defined_res ig_screen_factor (width (solid_image 11 9 (0, 0, 0))) (height (solid_image 11 9 (0, 0, 0))))"
    by (rule C2_planner_rounds_to_float [of "\<lambda>p. Some (solid_image 11 9 (0, 0, 0))" "[]" "solid_image 11 9 (0, 0, 0)" img_vars_empty, OF refl d])
qed

subsection \<open>C3: resize factor and validity\<close>

text \<open>
  C3: for every decodable image the planner returns (nothing is rejected), the resize
  factor is floor (proposed width / natural width), here the integer quotient; when the
  proposed width exceeds the natural width the direction is the enlarging one (the
  program's word is scale) and the validity is True exactly when the factor is at most
  the tolerance 2; otherwise the direction is shrink and the validity is None.
\<close>

theorem C3_resize_factor_and_validity:
  assumes "rd p = Some img" and "decodable img"
  shows "\<exists>s' ph pw.
    resize_type rd p ig_defined_res ig_screen_factor ig_scale_tolerance s = Inr s'
    \<and> proposed_res s' = Some (ph, pw)
    \<and> proposed_resize_factor s' = Some (pw div int (width img))
    \<and> (if int (width img) < pw
        then proposed_resize_dir s' = Some ''scale''
           \<and> resize_validity s' = Some (Some (pw div int (width img) \<le> ig_scale_tolerance))
        else proposed_resize_dir s' = Some ''shrink'' \<and> resize_validity s' = Some None)"
proof -
  obtain s' t ph pw where
    "resize_type rd p ig_defined_res ig_screen_factor ig_scale_tolerance s = Inr s'"
    "proposed_res s' = Some (ph, pw)"
    "proposed_resize_factor s' = Some (pw div int (width img))"
    "proposed_resize_dir s' = Some (if pw \<le> int (width img) then ''shrink'' else ''scale'')"
    "resize_validity s' =
       Some (if pw \<le> int (width img) then None
             else Some (pw div int (width img) \<le> ig_scale_tolerance))"
    using plan_decodable [of rd p img s, OF assms] by metis
  then show ?thesis
    apply -
    apply (rule exI [of _ s'], rule exI [of _ ph], rule exI [of _ pw])
    by (simp add: not_less)
qed

theorem C3_resize_factor_and_validity_witness:
  "decodable (solid_image 100 100 (0, 0, 0))
   \<and> (\<exists>s' ph pw.
    resize_type (\<lambda>p. Some (solid_image 100 100 (0, 0, 0))) [] ig_defined_res ig_screen_factor ig_scale_tolerance img_vars_empty = Inr s'
    \<and> proposed_res s' = Some (ph, pw)
    \<and> proposed_resize_factor s' = Some (pw div int (width (solid_image 100 100 (0, 0, 0))))
    \<and> (if int (width (solid_image 100 100 (0, 0, 0))) < pw
        then proposed_resize_dir s' = Some ''scale''
           \<and> resize_validity s' = Some (Some (pw div int (width (solid_image 100 100 (0, 0, 0))) \<le> ig_scale_tolerance))
        else proposed_resize_dir s' = Some ''shrink'' \<and> resize_validity s' = Some None))"
proof (rule conjI)
  show d: "decodable (solid_image 100 100 (0, 0, 0))"
    by (simp add: decodable_def solid_image_def)
  show "\<exists>s' ph pw.
    resize_type (\<lambda>p. Some (solid_image 100 100 (0, 0, 0))) [] ig_defined_res ig_screen_factor ig_scale_tolerance img_vars_empty = Inr s'
    \<and> proposed_res s' = Some (ph, pw)
    \<and> proposed_resize_factor s' = Some (pw div int (width (solid_image 100 100 (0, 0, 0))))
    \<and> (if int (width (solid_image 100 100 (0, 0, 0))) < pw
        then proposed_resize_dir s' = Some ''scale''
           \<and> resize_validity s' = Some (Some (pw div int (width (solid_image 100 100 (0, 0, 0))) \<le> ig_scale_tolerance))
        else proposed_resize_dir s' = Some ''shrink'' \<and> resize_validity s' = Some None)"
    by (rule C3_resize_factor_and_validity [of "\<lambda>p. Some (solid_image 100 100 (0, 0, 0))" "[]" "solid_image 100 100 (0, 0, 0)" img_vars_empty, OF refl d])
qed

subsection \<open>C4: an enlargement beyond the tolerance is written all the same\<close>

text \<open>
  C4: for every decodable image that the planner flags invalid (validity False: it is
  enlarged and the resize factor exceeds the tolerance), the pass of the loop raises
  nothing and writes its file; and the compositor and the writer produce this same file
  whatever value the flag has, so exactly as for a valid input.
\<close>

theorem C4_invalid_flag_is_ignored:
  assumes rd: "imread ev p = Some img" and d: "decodable img"
    and s': "resize_type (imread ev) p ig_defined_res ig_screen_factor ig_scale_tolerance s = Inr s'"
    and flag: "resize_validity s' = Some (Some False)"
  shows "\<exists>t f. iteration ev out T i p s = Inr (t, f)
    \<and> (\<forall>v. \<exists>u t'. add_pip_vars (s'\<lparr>resize_validity := v\<rparr>) = Inr u
               \<and> process_image ev u out T i = Inr (t', f))"
proof -
  obtain s'' t ph pw where *:
    "resize_type (imread ev) p ig_defined_res ig_screen_factor ig_scale_tolerance s = Inr s''"
    "add_pip_vars s'' = Inr t"
    "proposed_res s'' = Some (ph, pw)"
    "(ph, pw) = spec_propose_float ig_defined_res ig_screen_factor (width img) (height img)"
    "0 \<le> ph" "ph \<le> 1920" "0 \<le> pw" "pw \<le> 1080"
    "resize_validity s'' =
       Some (if pw \<le> int (width img) then None
             else Some (pw div int (width img) \<le> ig_scale_tolerance))"
    "pip_coords t = Some \<lparr>x1 = (1080 - pw) div 2, x2 = (1080 - pw) div 2 + pw,
                           y1 = (1920 - ph) div 2, y2 = (1920 - ph) div 2 + ph\<rparr>"
    "canvas t = Some \<lparr>height = 1920, width = 1080, pixels = (\<lambda>i j. (128, 128, 128))\<rparr>"
    "img_obj t = Some img" "proposed_res t = Some (ph, pw)"
    using plan_decodable [of "imread ev" p img s, OF rd d] by metis
  from *(1) s' have eq: "s'' = s'" by simp
  have "int (width img) < pw"
    using *(9) flag unfolding eq by (simp split: if_splits)
  from enlarge_height_pos [OF d *(4) this] have pos: "0 < ph" "0 < pw" by simp_all
  have "\<exists>t' f. process_image ev t out T i = Inr (t', f)"
    by (rule process_image_succeeds [OF *(12) d *(13) pos(1) *(6) pos(2) *(8) *(11) _ _ *(10)])
       simp_all
  then obtain t' f where pi: "process_image ev t out T i = Inr (t', f)"
    by blast
  have it: "iteration ev out T i p s = Inr (t', f)"
    using *(1,2) pi by (simp add: iteration_def)
  have "\<exists>u t''. add_pip_vars (s'\<lparr>resize_validity := v\<rparr>) = Inr u
               \<and> process_image ev u out T i = Inr (t'', f)" for v
  proof -
    let ?a = "s'\<lparr>resize_validity := v\<rparr>"
    have dr: "defined_res ?a = Some ig_defined_res"
      using resize_type_defined_res [OF s'] by simp
    have pr: "proposed_res ?a = Some (ph, pw)" using *(3) eq by simp
    note ap = add_pip_vars_fit [OF dr pr *(5-8)]
    obtain u where u: "add_pip_vars ?a = Inr u" using ap by simp
    have dr': "defined_res s' = Some ig_defined_res"
      by (rule resize_type_defined_res [OF s'])
    have pr': "proposed_res s' = Some (ph, pw)" using *(3) eq by simp
    have same: "img_obj u = img_obj t" "proposed_res u = proposed_res t"
      "canvas u = canvas t" "pip_coords u = pip_coords t"
      using u ap *(2) add_pip_vars_fit [OF dr' pr' *(5-8)] eq by auto
    from process_image_reads [OF same, of ev out T i] pi
    have "written_by (process_image ev u out T i) = Inr f"
      by (simp add: written_by_def)
    then obtain t'' where "process_image ev u out T i = Inr (t'', f)"
      by (auto dest: written_by_Inr)
    with u show ?thesis by blast
  qed
  with it show ?thesis by blast
qed

theorem C4_invalid_flag_is_ignored_witness:
  "\<exists>s' t f. resize_type (imread demo_env) ''b.jpg'' ig_defined_res ig_screen_factor
        ig_scale_tolerance img_vars_empty = Inr s'
     \<and> resize_validity s' = Some (Some False)
     \<and> iteration demo_env ''out'' \<lparr>year = 2024, month = 3, day = 1, hour = 9, minute = 30\<rparr> 1
          ''b.jpg'' img_vars_empty = Inr (t, f)"
proof -
  let ?img = "solid_image 100 100 (40, 50, 60)"
  have rd: "imread demo_env ''b.jpg'' = Some ?img"
    by (simp add: demo_env_def demo_read_def)
  have d: "decodable ?img"
    by (simp add: decodable_def solid_image_def)
  have v: "spec_propose_float ig_defined_res ig_screen_factor 100 100 = (810, 810)"
    by code_simp
  obtain s' ph pw where s':
    "resize_type (imread demo_env) ''b.jpg'' ig_defined_res ig_screen_factor ig_scale_tolerance
       img_vars_empty = Inr s'"
    "(ph, pw) = spec_propose_float ig_defined_res ig_screen_factor (width ?img) (height ?img)"
    "resize_validity s' =
       Some (if pw \<le> int (width ?img) then None
             else Some (pw div int (width ?img) \<le> ig_scale_tolerance))"
    using plan_decodable [of "imread demo_env" "''b.jpg''" ?img img_vars_empty, OF rd d] by metis
  from s'(2) v have "pw = 810" by (simp add: solid_image_def)
  with s'(3) have flag: "resize_validity s' = Some (Some False)"
    by (simp add: solid_image_def ig_scale_tolerance_def)
  from C4_invalid_flag_is_ignored [OF rd d s'(1) flag] s'(1) flag show ?thesis
    by blast
qed

subsection \<open>C5: the placement rectangle\<close>

text \<open>
  C5: for every decodable image the compositor returns with
  top = floor ((target height - proposed height) / 2),
  left = floor ((target width - proposed width) / 2), bottom = top + proposed height and
  right = left + proposed width.
\<close>

theorem C5_placement_rectangle:
  assumes "rd p = Some img" and "decodable img"
  shows "\<exists>s' t ph pw.
    resize_type rd p ig_defined_res ig_screen_factor ig_scale_tolerance s = Inr s'
    \<and> add_pip_vars s' = Inr t
    \<and> proposed_res s' = Some (ph, pw)
    \<and> pip_coords t =
        Some \<lparr>x1 = (snd ig_defined_res - pw) div 2,
              x2 = (snd ig_defined_res - pw) div 2 + pw,
              y1 = (fst ig_defined_res - ph) div 2,
              y2 = (fst ig_defined_res - ph) div 2 + ph\<rparr>"
proof -
  obtain s' t ph pw where
    "resize_type rd p ig_defined_res ig_screen_factor ig_scale_tolerance s = Inr s'"
    "add_pip_vars s' = Inr t"
    "proposed_res s' = Some (ph, pw)"
    "pip_coords t = Some \<lparr>x1 = (1080 - pw) div 2, x2 = (1080 - pw) div 2 + pw,
                           y1 = (1920 - ph) div 2, y2 = (1920 - ph) div 2 + ph\<rparr>"
    using plan_decodable [of rd p img s, OF assms] by metis
  then show ?thesis
    apply -
    apply (rule exI [of _ s'], rule exI [of _ t], rule exI [of _ ph], rule exI [of _ pw])
    by (simp add: ig_defined_res_def)
qed

theorem C5_placement_rectangle_witness:
  "decodable (solid_image 500 500 (0, 0, 0))
   \<and> (\<exists>s' t ph pw.
    resize_type (\<lambda>p. Some (solid_image 500 500 (0, 0, 0))) [] ig_defined_res ig_screen_factor ig_scale_tolerance img_vars_empty = Inr s'
    \<and> add_pip_vars s' = Inr t
    \<and> proposed_res s' = Some (ph, pw)
    \<and> pip_coords t =
        Some \<lparr>x1 = (snd ig_defined_res - pw) div 2,
              x2 = (snd ig_defined_res - pw) div 2 + pw,
              y1 = (fst ig_defined_res - ph) div 2,
              y2 = (fst ig_defined_res - ph) div 2 + ph\<rparr>)"
proof (rule conjI)
  show d: "decodable (solid_image 500 500 (0, 0, 0))"
    by (simp add: decodable_def solid_image_def)
  show "\<exists>s' t ph pw.
    resize_type (\<lambda>p. Some (solid_image 500 500 (0, 0, 0))) [] ig_defined_res ig_screen_factor ig_scale_tolerance img_vars_empty = Inr s'
    \<and> add_pip_vars s' = Inr t
    \<and> proposed_res s' = Some (ph, pw)
    \<and> pip_coords t =
        Some \<lparr>x1 = (snd ig_defined_res - pw) div 2,
              x2 = (snd ig_defined_res - pw) div 2 + pw,
              y1 = (fst ig_defined_res - ph) div 2,
              y2 = (fst ig_defined_res - ph) div 2 + ph\<rparr>"
    by (rule C5_placement_rectangle [of "\<lambda>p. Some (solid_image 500 500 (0, 0, 0))" "[]" "solid_image 500 500 (0, 0, 0)" img_vars_empty, OF refl d])
qed

subsection \<open>C6: the names of the output files\<close>



subsection \<open>C7: the size of the buffer written\<close>

text \<open>
  C7: every buffer that a run hands to \<^verbatim>\<open>cv2.imwrite\<close> has the size of the configured
  canvas, 1920 high and 1080 wide, whatever the size of the input image; its pixels
  have three channels by their type.
\<close>

theorem C7_written_buffer_has_canvas_size:
  "\<forall>f\<in>set (snd (main ev date ps out)).
     height (snd f) = nat (fst ig_defined_res) \<and> width (snd f) = nat (snd ig_defined_res)"
proof (cases "valid_date date")
  case (Inl e)
  then show ?thesis by (simp add: main_def)
next
  case (Inr T)
  note m = main_written [OF Inr, of ev ps out]
  show ?thesis
  proof
    fix f assume "f \<in> set (snd (main ev date ps out))"
    then obtain k where k: "k < length (snd (main ev date ps out))"
      and f: "f = snd (main ev date ps out) ! k"
      by (auto simp: in_set_conv_nth)
    from m k f have "written_by (iteration ev out T k (ps ! k) img_vars_empty) = Inr f" by blast
    from written_by_Inr [OF this] obtain t where
      "iteration ev out T k (ps ! k) img_vars_empty = Inr (t, f)" ..
    from iteration_output [OF this]
    show "height (snd f) = nat (fst ig_defined_res) \<and> width (snd f) = nat (snd ig_defined_res)"
      by (simp add: ig_defined_res_def)
  qed
qed

theorem C7_written_buffer_has_canvas_size_witness:
  "length (snd (main demo_env ''2024-03-01_09-30'' [''a.jpg''] ''out'')) = 1
   \<and> height (snd (hd (snd (main demo_env ''2024-03-01_09-30'' [''a.jpg''] ''out'')))) = 1920
   \<and> width (snd (hd (snd (main demo_env ''2024-03-01_09-30'' [''a.jpg''] ''out'')))) = 1080"
proof -
  define W where "W = snd (main demo_env ''2024-03-01_09-30'' [''a.jpg''] ''out'')"
  have l: "length W = 1"
    unfolding W_def by code_simp
  then have "hd W \<in> set W"
    by (cases W) simp_all
  with C7_written_buffer_has_canvas_size [of demo_env "''2024-03-01_09-30''" "[''a.jpg'']" "''out''"]
  have "height (snd (hd W)) = 1920 \<and> width (snd (hd W)) = 1080"
    unfolding W_def [symmetric] by (simp add: ig_defined_res_def)
  with l show ?thesis
    unfolding W_def by simp
qed

subsection \<open>C8: the execution date\<close>




subsection \<open>C9: the paste region lies inside the canvas\<close>

text \<open>
  C9: for every decodable image, under the configured constants, both proposed
  dimensions are at most the canvas's, the offsets top and left are not negative, and
  the rectangle from (top, left) to (bottom, right) lies inside the canvas.
\<close>

theorem C9_paste_region_inside_canvas:
  assumes "rd p = Some img" and "decodable img"
  shows "\<exists>s' t ph pw c.
    resize_type rd p ig_defined_res ig_screen_factor ig_scale_tolerance s = Inr s'
    \<and> add_pip_vars s' = Inr t
    \<and> proposed_res s' = Some (ph, pw) \<and> pip_coords t = Some c
    \<and> 0 \<le> ph \<and> ph \<le> fst ig_defined_res \<and> 0 \<le> pw \<and> pw \<le> snd ig_defined_res
    \<and> 0 \<le> y1 c \<and> y1 c \<le> y2 c \<and> y2 c \<le> fst ig_defined_res
    \<and> 0 \<le> x1 c \<and> x1 c \<le> x2 c \<and> x2 c \<le> snd ig_defined_res"
proof -
  obtain s' t ph pw where *:
    "resize_type rd p ig_defined_res ig_screen_factor ig_scale_tolerance s = Inr s'"
    "add_pip_vars s' = Inr t"
    "proposed_res s' = Some (ph, pw)"
    "0 \<le> ph" "ph \<le> 1920" "0 \<le> pw" "pw \<le> 1080"
    "pip_coords t = Some \<lparr>x1 = (1080 - pw) div 2, x2 = (1080 - pw) div 2 + pw,
                           y1 = (1920 - ph) div 2, y2 = (1920 - ph) div 2 + ph\<rparr>"
    using plan_decodable [of rd p img s, OF assms] by metis
  have ar: "(1920 - ph) div 2 + ph \<le> 1920" "(1080 - pw) div 2 + pw \<le> 1080"
    using *(4-7) by presburger+
  show ?thesis
    apply (rule exI [of _ s'], rule exI [of _ t], rule exI [of _ ph], rule exI [of _ pw])
    apply (rule exI [of _ "\<lparr>x1 = (1080 - pw) div 2, x2 = (1080 - pw) div 2 + pw,
                           y1 = (1920 - ph) div 2, y2 = (1920 - ph) div 2 + ph\<rparr>"])
    using * ar by (simp add: ig_defined_res_def)
qed

theorem C9_paste_region_inside_canvas_witness:
  "decodable (solid_image 500 500 (0, 0, 0))
   \<and> (\<exists>s' t ph pw c.
    resize_type (\<lambda>p. Some (solid_image 500 500 (0, 0, 0))) [] ig_defined_res ig_screen_factor ig_scale_tolerance img_vars_empty = Inr s'
    \<and> add_pip_vars s' = Inr t
    \<and> proposed_res s' = Some (ph, pw) \<and> pip_coords t = Some c
    \<and> 0 \<le> ph \<and> ph \<le> fst ig_defined_res \<and> 0 \<le> pw \<and> pw \<le> snd ig_defined_res
    \<and> 0 \<le> y1 c \<and> y1 c \<le> y2 c \<and> y2 c \<le> fst ig_defined_res
    \<and> 0 \<le> x1 c \<and> x1 c \<le> x2 c \<and> x2 c \<le> snd ig_defined_res)"
proof (rule conjI)
  show d: "decodable (solid_image 500 500 (0, 0, 0))"
    by (simp add: decodable_def solid_image_def)
  show "\<exists>s' t ph pw c.
    resize_type (\<lambda>p. Some (solid_image 500 500 (0, 0, 0))) [] ig_defined_res ig_screen_factor ig_scale_tolerance img_vars_empty = Inr s'
    \<and> add_pip_vars s' = Inr t
    \<and> proposed_res s' = Some (ph, pw) \<and> pip_coords t = Some c
    \<and> 0 \<le> ph \<and> ph \<le> fst ig_defined_res \<and> 0 \<le> pw \<and> pw \<le> snd ig_defined_res
    \<and> 0 \<le> y1 c \<and> y1 c \<le> y2 c \<and> y2 c \<le> fst ig_defined_res
    \<and> 0 \<le> x1 c \<and> x1 c \<le> x2 c \<and> x2 c \<le> snd ig_defined_res"
    by (rule C9_paste_region_inside_canvas [of "\<lambda>p. Some (solid_image 500 500 (0, 0, 0))" "[]" "solid_image 500 500 (0, 0, 0)" img_vars_empty, OF refl d])
qed

subsection \<open>C10: no state leaks between the inputs of a batch\<close>

text \<open>
  C10: the dictionary is shared by all passes of the loop, but every key read is
  overwritten before: the file written for the input at index \<open>k\<close> is the one a pass
  writes from any dictionary, so it depends only on the image read, the timestamp and
  \<open>k\<close>; two runs whose \<open>k\<close>-th images are the same write the same \<open>k\<close>-th file, whatever
  their other inputs are.
\<close>

theorem C10_output_depends_on_own_input_only:
  assumes "k < length (snd (main ev date ps out))"
    and "k < length (snd (main ev date qs out))"
    and "imread ev (ps ! k) = imread ev (qs ! k)"
  shows "snd (main ev date ps out) ! k = snd (main ev date qs out) ! k
    \<and> (\<exists>T. valid_date date = Inr T
         \<and> (\<forall>s. written_by (iteration ev out T k (ps ! k) s) = Inr (snd (main ev date ps out) ! k)))"
proof (cases "valid_date date")
  case (Inl e)
  with assms(1) show ?thesis by (simp add: main_def)
next
  case (Inr T)
  have p: "written_by (iteration ev out T k (ps ! k) img_vars_empty) = Inr (snd (main ev date ps out) ! k)"
    using main_written [OF Inr, of ev ps out] assms(1) by blast
  have q: "written_by (iteration ev out T k (qs ! k) img_vars_empty) = Inr (snd (main ev date qs out) ! k)"
    using main_written [OF Inr, of ev qs out] assms(2) by blast
  have "written_by (iteration ev out T k (ps ! k) img_vars_empty)
      = written_by (iteration ev out T k (qs ! k) img_vars_empty)"
    using assms(3) by (rule iteration_reads_nothing)
  with p q have a: "snd (main ev date ps out) ! k = snd (main ev date qs out) ! k" by simp
  have "written_by (iteration ev out T k (ps ! k) s) = Inr (snd (main ev date ps out) ! k)" for s
    using iteration_reads_nothing [where p = "ps ! k" and p' = "ps ! k" and s = s
        and ?s0.0 = img_vars_empty, OF refl] p by simp
  with a Inr show ?thesis by blast
qed

theorem C10_output_depends_on_own_input_only_witness:
  "snd (main demo_env ''2024-03-01_09-30'' [''a.jpg'', ''b.jpg''] ''out'') ! 1
     = snd (main demo_env ''2024-03-01_09-30'' [''c.jpg'', ''b.jpg''] ''out'') ! 1"
proof -
  have a: "1 < length (snd (main demo_env ''2024-03-01_09-30'' [''a.jpg'', ''b.jpg''] ''out''))"
    by code_simp
  have b: "1 < length (snd (main demo_env ''2024-03-01_09-30'' [''c.jpg'', ''b.jpg''] ''out''))"
    by code_simp
  have c: "imread demo_env ([''a.jpg'', ''b.jpg''] ! 1) = imread demo_env ([''c.jpg'', ''b.jpg''] ! 1)"
    by simp
  from C10_output_depends_on_own_input_only [OF a b c] show ?thesis by blast
qed

end
